theory Spec2Isabelle
  imports Complex_Main
begin

section \<open>The game of \<^verbatim>\<open>src/components/FlappyBird.tsx\<close>\<close>

text \<open>
  The component keeps five pieces of state (\<^verbatim>\<open>bird\<close>, \<^verbatim>\<open>pipes\<close>, \<^verbatim>\<open>gameStarted\<close>,
  \<^verbatim>\<open>gameOver\<close>, \<^verbatim>\<open>score\<close>) and changes them in three places: \<^verbatim>\<open>jump\<close>,
  \<^verbatim>\<open>resetGame\<close> and the interval callback \<^verbatim>\<open>gameLoop\<close>. The model passes the state
  explicitly. JavaScript numbers are modelled as exact rationals; the two impure calls of
  \<^verbatim>\<open>generatePipe\<close>, \<^verbatim>\<open>Math.random()\<close> and \<^verbatim>\<open>Date.now()\<close>, become the parameters
  \<open>r\<close> and \<open>now\<close> of a tick.

  The fields \<^verbatim>\<open>x\<close>, \<^verbatim>\<open>y\<close> and \<^verbatim>\<open>id\<close> of the source are written \<open>bird_x\<close>, \<open>bird_y\<close>,
  \<open>pipe_x\<close> and \<open>pipe_id\<close>: the two interfaces share the name \<^verbatim>\<open>x\<close>, and \<open>id\<close> is the
  identity function of HOL.
\<close>

subsection \<open>Data\<close>

record Bird =
  bird_x :: rat
  bird_y :: rat
  velocity :: rat

record Pipe =
  pipe_x :: rat
  topHeight :: rat
  bottomHeight :: rat
  pipe_id :: int
  passed :: bool

record Game =
  bird :: Bird
  pipes :: "Pipe list"
  gameStarted :: bool
  gameOver :: bool
  score :: nat

definition BIRD_SIZE :: rat where "BIRD_SIZE = 24"
definition PIPE_WIDTH :: rat where "PIPE_WIDTH = 60"
definition PIPE_GAP :: rat where "PIPE_GAP = 150"
definition GRAVITY :: rat where "GRAVITY = 4 / 10"
definition JUMP_FORCE :: rat where "JUMP_FORCE = - 8"
definition PIPE_SPEED :: rat where "PIPE_SPEED = 2"
definition GROUND_HEIGHT :: rat where "GROUND_HEIGHT = 60"
definition gameHeight :: rat where "gameHeight = 500"
definition gameWidth :: rat where "gameWidth = 800"

text \<open>The values of the \<^verbatim>\<open>useState\<close> calls at the top of the component.\<close>

definition initial :: Game where
  "initial =
     \<lparr>bird = \<lparr>bird_x = 100, bird_y = 250, velocity = 0\<rparr>, pipes = [],
      gameStarted = False, gameOver = False, score = 0\<rparr>"

subsection \<open>\<^verbatim>\<open>jump\<close> and \<^verbatim>\<open>resetGame\<close>\<close>

definition jump :: "Game \<Rightarrow> Game" where
  "jump s =
     (if \<not> gameStarted s then s\<lparr>gameStarted := True\<rparr>
      else if gameOver s then s
      else s\<lparr>bird := (bird s)\<lparr>velocity := JUMP_FORCE\<rparr>\<rparr>)"

definition resetGame :: "Game \<Rightarrow> Game" where
  "resetGame s =
     s\<lparr>bird := \<lparr>bird_x = 100, bird_y = 250, velocity = 0\<rparr>, pipes := [], score := 0,
       gameOver := False, gameStarted := False\<rparr>"

subsection \<open>\<^verbatim>\<open>generatePipe\<close>\<close>

definition generatePipe :: "rat \<Rightarrow> rat \<Rightarrow> int \<Rightarrow> Pipe" where
  "generatePipe x r now =
     (let minHeight = 50;
          maxHeight = gameHeight - GROUND_HEIGHT - PIPE_GAP - 50;
          top = r * (maxHeight - minHeight) + minHeight;
          bottom = gameHeight - GROUND_HEIGHT - top - PIPE_GAP
      in \<lparr>pipe_x = x, topHeight = top, bottomHeight = bottom, pipe_id = now, passed = False\<rparr>)"

subsection \<open>The interval callback\<close>

text \<open>
  The updater given to \<^verbatim>\<open>setBird\<close>. The second component tells whether the updater
  called \<^verbatim>\<open>setGameOver(true)\<close>.
\<close>

definition birdUpdate :: "Bird \<Rightarrow> Bird \<times> bool" where
  "birdUpdate prev =
     (let newY = bird_y prev + velocity prev;
          newVelocity = velocity prev + GRAVITY
      in if newY > gameHeight - GROUND_HEIGHT - BIRD_SIZE then (prev, True)
         else if newY < 0 then (prev\<lparr>bird_y := 0, velocity := 0\<rparr>, False)
         else (prev\<lparr>bird_y := newY, velocity := newVelocity\<rparr>, False))"

text \<open>
  The first half of the updater given to \<^verbatim>\<open>setPipes\<close>: move, filter, push.
\<close>

definition movePipe :: "Pipe \<Rightarrow> Pipe" where
  "movePipe pipe = pipe\<lparr>pipe_x := pipe_x pipe - PIPE_SPEED\<rparr>"

definition onScreen :: "Pipe \<Rightarrow> bool" where
  "onScreen pipe \<longleftrightarrow> pipe_x pipe > - PIPE_WIDTH"

definition advancePipes :: "rat \<Rightarrow> int \<Rightarrow> Pipe list \<Rightarrow> Pipe list" where
  "advancePipes r now prev =
     (let newPipes = filter onScreen (map movePipe prev)
      in if length newPipes = 0 \<or> pipe_x (last newPipes) < gameWidth - 300
         then newPipes @ [generatePipe gameWidth r now]
         else newPipes)"

text \<open>
  The body of \<^verbatim>\<open>newPipes.forEach\<close>, for one pipe: the pipe as the body leaves it, whether
  \<^verbatim>\<open>setScore(s => s + 1)\<close> was called, and whether \<^verbatim>\<open>setGameOver(true)\<close> was called.
  The \<^verbatim>\<open>bird\<close> of the body is the one the callback closes over, not the \<^verbatim>\<open>prev\<close> of
  the bird updater.
\<close>

definition scores :: "Bird \<Rightarrow> Pipe \<Rightarrow> bool" where
  "scores b pipe =
     (let birdLeft = bird_x b; pipeRight = pipe_x pipe + PIPE_WIDTH
      in \<not> passed pipe \<and> birdLeft > pipeRight)"

definition collides :: "Bird \<Rightarrow> Pipe \<Rightarrow> bool" where
  "collides b pipe =
     (let birdLeft = bird_x b; birdRight = bird_x b + BIRD_SIZE;
          birdTop = bird_y b; birdBottom = bird_y b + BIRD_SIZE;
          pipeLeft = pipe_x pipe; pipeRight = pipe_x pipe + PIPE_WIDTH
      in birdRight > pipeLeft \<and> birdLeft < pipeRight \<and>
         (birdTop < topHeight pipe \<or>
          birdBottom > gameHeight - GROUND_HEIGHT - bottomHeight pipe))"

definition checkPipe :: "Bird \<Rightarrow> Pipe \<Rightarrow> Pipe \<times> bool \<times> bool" where
  "checkPipe b pipe =
     (if scores b pipe then (pipe\<lparr>passed := True\<rparr>, True, collides b pipe)
      else (pipe, False, collides b pipe))"

text \<open>
  The \<^verbatim>\<open>forEach\<close> loop: the pipes as the loop leaves them, the number of calls of
  \<^verbatim>\<open>setScore(s => s + 1)\<close>, and whether \<^verbatim>\<open>setGameOver(true)\<close> was called.
\<close>

fun forEachPipe :: "Bird \<Rightarrow> Pipe list \<Rightarrow> Pipe list \<times> nat \<times> bool" where
  "forEachPipe b [] = ([], 0, False)"
| "forEachPipe b (pipe # rest) =
     (case checkPipe b pipe of (pipe', scored, hit) \<Rightarrow>
      case forEachPipe b rest of (rest', n, over) \<Rightarrow>
        (pipe' # rest', (if scored then 1 else 0) + n, hit \<or> over))"

definition pipesUpdate :: "Bird \<Rightarrow> rat \<Rightarrow> int \<Rightarrow> Pipe list \<Rightarrow> Pipe list \<times> nat \<times> bool" where
  "pipesUpdate b r now prev = forEachPipe b (advancePipes r now prev)"

text \<open>
  One firing of the interval. The effect installs the interval only while
  \<^verbatim>\<open>gameStarted && !gameOver\<close>, so a tick in any other phase changes nothing. The
  callback calls \<^verbatim>\<open>setBird\<close> and then \<^verbatim>\<open>setPipes\<close>, both unconditionally. The effect
  depends on \<^verbatim>\<open>bird.x\<close> and \<^verbatim>\<open>bird.y\<close>, so the \<^verbatim>\<open>bird\<close> the callback closes over has
  the coordinates of the state at the start of the tick.
\<close>

definition gameLoop :: "rat \<Rightarrow> int \<Rightarrow> Game \<Rightarrow> Game" where
  "gameLoop r now s =
     (if \<not> gameStarted s \<or> gameOver s then s
      else case birdUpdate (bird s) of (newBird, ground) \<Rightarrow>
           case pipesUpdate (bird s) r now (pipes s) of (newPipes, gained, hit) \<Rightarrow>
             s\<lparr>bird := newBird, pipes := newPipes, score := score s + gained,
               gameOver := ground \<or> hit\<rparr>)"

subsection \<open>Runs\<close>

datatype event = Jump | Reset | Tick rat int

fun apply_event :: "Game \<Rightarrow> event \<Rightarrow> Game" where
  "apply_event s Jump = jump s"
| "apply_event s Reset = resetGame s"
| "apply_event s (Tick r now) = gameLoop r now s"

definition run :: "event list \<Rightarrow> Game \<Rightarrow> Game" where
  "run es s = foldl apply_event s es"

text \<open>\<^verbatim>\<open>Math.random()\<close> returns a number in \<open>[0, 1)\<close>.\<close>

definition random_ok :: "rat \<Rightarrow> bool" where
  "random_ok r \<longleftrightarrow> 0 \<le> r \<and> r < 1"

inductive reachable :: "Game \<Rightarrow> bool" where
  r_initial: "reachable initial"
| r_jump: "reachable s \<Longrightarrow> reachable (jump s)"
| r_reset: "reachable s \<Longrightarrow> reachable (resetGame s)"
| r_tick: "reachable s \<Longrightarrow> random_ok r \<Longrightarrow> reachable (gameLoop r now s)"

definition running :: "Game \<Rightarrow> bool" where
  "running s \<longleftrightarrow> gameStarted s \<and> \<not> gameOver s"

fun valid_event :: "event \<Rightarrow> bool" where
  "valid_event (Tick r now) = random_ok r"
| "valid_event Jump = True"
| "valid_event Reset = True"

subsection \<open>Observers of a run\<close>

text \<open>
  The number of pipes with the \<^verbatim>\<open>passed\<close> flag set that the next tick removes from the
  list: none when the game is not running, since the tick then does nothing.
\<close>

definition pruned_now :: "Game \<Rightarrow> nat" where
  "pruned_now s =
     (if running s then length (filter (\<lambda>p. passed p \<and> \<not> onScreen (movePipe p)) (pipes s))
      else 0)"

text \<open>
  The number of passed pipes that the ticks of a run have removed since its last
  \<^verbatim>\<open>resetGame\<close>, starting from the count \<open>n\<close> in the state \<open>s\<close>.
\<close>

fun count_pruned :: "nat \<Rightarrow> Game \<Rightarrow> event list \<Rightarrow> nat" where
  "count_pruned n s [] = n"
| "count_pruned n s (Jump # es) = count_pruned n (jump s) es"
| "count_pruned n s (Reset # es) = count_pruned 0 (resetGame s) es"
| "count_pruned n s (Tick r now # es) = count_pruned (n + pruned_now s) (gameLoop r now s) es"

text \<open>
  \<open>same_obstacle s p t q\<close>: the pipe \<open>p\<close> of the state \<open>s\<close> is the pipe \<open>q\<close> of the later
  state \<open>t\<close>. A jump leaves the pipes alone; a tick of a running game takes a pipe to the
  pipe of the new list that stands \<^verbatim>\<open>PIPE_SPEED\<close> further left (the positions of the pipes
  of a reachable state are distinct); a tick of a game that is not running changes nothing;
  \<^verbatim>\<open>resetGame\<close> discards every pipe.
\<close>

inductive same_obstacle :: "Game \<Rightarrow> Pipe \<Rightarrow> Game \<Rightarrow> Pipe \<Rightarrow> bool" where
  so_here: "p \<in> set (pipes s) \<Longrightarrow> same_obstacle s p s p"
| so_jump: "same_obstacle s p t q \<Longrightarrow> same_obstacle s p (jump t) q"
| so_tick: "same_obstacle s p t q \<Longrightarrow> running t \<Longrightarrow> random_ok r \<Longrightarrow>
            q' \<in> set (pipes (gameLoop r now t)) \<Longrightarrow> pipe_x q' = pipe_x q - PIPE_SPEED \<Longrightarrow>
            same_obstacle s p (gameLoop r now t) q'"

subsection \<open>Some concrete runs\<close>

text \<open>
  A jump followed by 41 ticks brings the bird back to the height it had: the heights of
  the 41 ticks add up to \<open>41 * (-8) + 0.4 * (0 + 1 + ... + 40) = 0\<close>. Every pipe of these
  runs is generated with \<^verbatim>\<open>Math.random()\<close> returning \<open>1/2\<close>, so its gap goes from 145 to
  295, and the bird, between 166 and 250, flies through it.
\<close>

definition cycle :: "event list" where
  "cycle = Jump # replicate 41 (Tick (1 / 2) 0)"

text \<open>The start, then 381 ticks: the first pipe is at 40, one tick before the bird has passed it.\<close>

definition before_pass_run :: "event list" where
  "before_pass_run = Jump # concat (replicate 9 cycle) @ Jump # replicate 12 (Tick (1 / 2) 0)"

text \<open>The start, then 430 ticks: the first pipe is at \<open>-58\<close>, one tick before it is removed.\<close>

definition before_prune_run :: "event list" where
  "before_prune_run = Jump # concat (replicate 10 cycle) @ Jump # replicate 20 (Tick (1 / 2) 0)"

text \<open>The start, then 29 ticks without a jump: the bird is one tick above the ground line.\<close>

definition fall_run :: "event list" where
  "fall_run = Jump # replicate 29 (Tick (1 / 2) 0)"

text \<open>The start, then a jump before each of 31 ticks, and one more jump: the bird is 2 below the ceiling.\<close>

definition ceiling_run :: "event list" where
  "ceiling_run = Jump # concat (replicate 31 [Jump, Tick (1 / 2) 0]) @ [Jump]"

subsection \<open>Some concrete states\<close>

text \<open>
  A running game whose bird, at height 150 and rising by 8, overlaps a pipe whose upper part
  ends at 145.
\<close>

definition near_pipe :: Game where
  "near_pipe = initial\<lparr>gameStarted := True,
     bird := \<lparr>bird_x = 100, bird_y = 150, velocity = - 8\<rparr>,
     pipes := [\<lparr>pipe_x = 100, topHeight = 145, bottomHeight = 145, pipe_id = 0, passed = False\<rparr>]\<rparr>"

section \<open>Properties\<close>

lemmas game_consts =
  BIRD_SIZE_def PIPE_WIDTH_def PIPE_GAP_def GRAVITY_def JUMP_FORCE_def PIPE_SPEED_def
  GROUND_HEIGHT_def gameHeight_def gameWidth_def

lemmas tick_defs =
  gameLoop_def birdUpdate_def pipesUpdate_def advancePipes_def movePipe_def onScreen_def
  generatePipe_def checkPipe_def scores_def collides_def game_consts Let_def

lemmas eval_defs = run_def initial_def jump_def resetGame_def tick_defs

lemma replicate_numeral: "replicate (numeral k) x = x # replicate (pred_numeral k) x"
  by (simp add: numeral_eq_Suc)

lemma reachable_run: "reachable s \<Longrightarrow> list_all valid_event es \<Longrightarrow> reachable (run es s)"
proof (induction es arbitrary: s)
  case Nil
  then show ?case by (simp add: run_def)
next
  case (Cons e es)
  have "reachable (apply_event s e)"
    using Cons.prems by (cases e) (auto intro: reachable.intros)
  moreover have "list_all valid_event es"
    using Cons.prems by simp
  ultimately have "reachable (run es (apply_event s e))"
    by (rule Cons.IH)
  then show ?case by (simp add: run_def)
qed

lemma run_fall:
  "run fall_run initial =
     \<lparr>bird = \<lparr>bird_x = 100, bird_y = 2062 / 5, velocity = 58 / 5\<rparr>,
      pipes = [\<lparr>pipe_x = 744, topHeight = 145, bottomHeight = 145, pipe_id = 0,
                passed = False\<rparr>],
      gameStarted = True, gameOver = False, score = 0\<rparr>"
  by (simp add: fall_run_def eval_defs replicate_numeral)

lemma run_ceiling:
  "run ceiling_run initial =
     \<lparr>bird = \<lparr>bird_x = 100, bird_y = 2, velocity = - 8\<rparr>,
      pipes = [\<lparr>pipe_x = 740, topHeight = 145, bottomHeight = 145, pipe_id = 0,
                passed = False\<rparr>],
      gameStarted = True, gameOver = False, score = 0\<rparr>"
  by (simp add: ceiling_run_def eval_defs replicate_numeral)

lemma run_before_prune:
  "run before_prune_run initial =
     \<lparr>bird = \<lparr>bird_x = 100, bird_y = 166, velocity = 0\<rparr>,
      pipes = [\<lparr>pipe_x = - 58, topHeight = 145, bottomHeight = 145, pipe_id = 0,
                passed = True\<rparr>,
               \<lparr>pipe_x = 244, topHeight = 145, bottomHeight = 145, pipe_id = 0,
                passed = False\<rparr>,
               \<lparr>pipe_x = 546, topHeight = 145, bottomHeight = 145, pipe_id = 0,
                passed = False\<rparr>],
      gameStarted = True, gameOver = False, score = 1\<rparr>"
  by (simp add: before_prune_run_def cycle_def eval_defs replicate_numeral)

lemma run_before_pass:
  "run before_pass_run initial =
     \<lparr>bird = \<lparr>bird_x = 100, bird_y = 902 / 5, velocity = - (16 / 5)\<rparr>,
      pipes = [\<lparr>pipe_x = 40, topHeight = 145, bottomHeight = 145, pipe_id = 0,
                passed = False\<rparr>,
               \<lparr>pipe_x = 342, topHeight = 145, bottomHeight = 145, pipe_id = 0,
                passed = False\<rparr>,
               \<lparr>pipe_x = 644, topHeight = 145, bottomHeight = 145, pipe_id = 0,
                passed = False\<rparr>],
      gameStarted = True, gameOver = False, score = 0\<rparr>"
  by (simp add: before_pass_run_def cycle_def eval_defs replicate_numeral)

lemma valid_before_pass: "list_all valid_event before_pass_run"
  by (auto simp: before_pass_run_def cycle_def list_all_iff random_ok_def)

lemma valid_fall: "list_all valid_event fall_run"
  by (simp add: fall_run_def list_all_iff random_ok_def)

lemma valid_ceiling: "list_all valid_event ceiling_run"
  by (auto simp: ceiling_run_def list_all_iff random_ok_def)

lemma valid_before_prune: "list_all valid_event before_prune_run"
  by (auto simp: before_prune_run_def cycle_def list_all_iff random_ok_def)

lemma forEachPipe_pipes: "fst (forEachPipe b ps) = map (\<lambda>p. fst (checkPipe b p)) ps"
  by (induction ps) (auto split: prod.splits)

lemma forEachPipe_gained:
  "fst (snd (forEachPipe b ps)) = length (filter (scores b) ps)"
  by (induction ps) (auto simp: checkPipe_def split: prod.splits if_splits)

lemma forEachPipe_hit:
  "snd (snd (forEachPipe b ps)) \<longleftrightarrow> (\<exists>p \<in> set ps. collides b p)"
  by (induction ps) (auto simp: checkPipe_def split: prod.splits if_splits)

lemma gameLoop_running:
  assumes "running s"
  shows "gameLoop r now s =
     s\<lparr>bird := fst (birdUpdate (bird s)),
       pipes := map (\<lambda>p. fst (checkPipe (bird s) p)) (advancePipes r now (pipes s)),
       score := score s + length (filter (scores (bird s)) (advancePipes r now (pipes s))),
       gameOver := snd (birdUpdate (bird s)) \<or>
                   (\<exists>p \<in> set (advancePipes r now (pipes s)). collides (bird s) p)\<rparr>"
proof -
  obtain nb g where bu: "birdUpdate (bird s) = (nb, g)" by (cases "birdUpdate (bird s)")
  obtain np n h where pu: "forEachPipe (bird s) (advancePipes r now (pipes s)) = (np, n, h)"
    by (cases "forEachPipe (bird s) (advancePipes r now (pipes s))") auto
  have "np = map (\<lambda>p. fst (checkPipe (bird s) p)) (advancePipes r now (pipes s))"
    using forEachPipe_pipes [of "bird s" "advancePipes r now (pipes s)"] pu by simp
  moreover have "n = length (filter (scores (bird s)) (advancePipes r now (pipes s)))"
    using forEachPipe_gained [of "bird s" "advancePipes r now (pipes s)"] pu by simp
  moreover have "h \<longleftrightarrow> (\<exists>p \<in> set (advancePipes r now (pipes s)). collides (bird s) p)"
    using forEachPipe_hit [of "bird s" "advancePipes r now (pipes s)"] pu by simp
  ultimately show ?thesis
    using assms bu pu by (simp add: gameLoop_def running_def pipesUpdate_def)
qed

lemma gameLoop_not_running: "\<not> running s \<Longrightarrow> gameLoop r now s = s"
  by (auto simp: gameLoop_def running_def)


subsection \<open>The bird\<close>

lemma birdUpdate_cases:
  "birdUpdate b =
     (if bird_y b + velocity b > gameHeight - GROUND_HEIGHT - BIRD_SIZE then (b, True)
      else if bird_y b + velocity b < 0 then (b\<lparr>bird_y := 0, velocity := 0\<rparr>, False)
      else (b\<lparr>bird_y := bird_y b + velocity b, velocity := velocity b + GRAVITY\<rparr>, False))"
  by (simp add: birdUpdate_def Let_def)

lemma birdUpdate_bird_x: "bird_x (fst (birdUpdate b)) = bird_x b"
  by (simp add: birdUpdate_cases)

lemma birdUpdate_nonneg: "0 \<le> bird_y b \<Longrightarrow> 0 \<le> bird_y (fst (birdUpdate b))"
  by (simp add: birdUpdate_cases)

lemma reachable_bird_x: "reachable s \<Longrightarrow> bird_x (bird s) = 100"
proof (induction rule: reachable.induct)
  case r_initial
  show ?case by (simp add: initial_def)
next
  case (r_jump s)
  then show ?case by (simp add: jump_def)
next
  case (r_reset s)
  show ?case by (simp add: resetGame_def)
next
  case (r_tick s r now)
  show ?case
  proof (cases "running s")
    case True
    then show ?thesis using r_tick.IH by (simp add: gameLoop_running birdUpdate_bird_x)
  next
    case False
    then show ?thesis using r_tick.IH by (simp add: gameLoop_not_running)
  qed
qed

text \<open>
  C2. On a tick processed while the game runs, the new velocity is the old velocity plus
  \<^verbatim>\<open>GRAVITY\<close> and the new height is the old height plus the old velocity, the velocity
  held before gravity is added. The interval has a fixed step, so the \<open>dt\<close> of the claim
  is 1. These are the values the tick stores unless the new height passes the ground
  line (the bird is then left as it was) or is negative (height and velocity are then 0).
\<close>

theorem physics_step_uses_old_velocity:
  assumes "running s"
  shows "bird (gameLoop r now s) =
     (let newVelocity = velocity (bird s) + GRAVITY * 1;
          newY = bird_y (bird s) + velocity (bird s) * 1
      in if newY > gameHeight - GROUND_HEIGHT - BIRD_SIZE then bird s
         else if newY < 0 then (bird s)\<lparr>bird_y := 0, velocity := 0\<rparr>
         else (bird s)\<lparr>bird_y := newY, velocity := newVelocity\<rparr>)"
  using assms by (simp add: gameLoop_running birdUpdate_cases Let_def)

theorem physics_step_uses_old_velocity_witness:
  "running (initial\<lparr>gameStarted := True, bird := \<lparr>bird_x = 100, bird_y = 250, velocity = 3\<rparr>\<rparr>) \<and>
   bird (gameLoop (1 / 2) 0
     (initial\<lparr>gameStarted := True, bird := \<lparr>bird_x = 100, bird_y = 250, velocity = 3\<rparr>\<rparr>)) =
     \<lparr>bird_x = 100, bird_y = 253, velocity = 34 / 10\<rparr>"
  using physics_step_uses_old_velocity
    [of "initial\<lparr>gameStarted := True, bird := \<lparr>bird_x = 100, bird_y = 250, velocity = 3\<rparr>\<rparr>"
        "1 / 2" 0]
  by (simp add: running_def initial_def game_consts Let_def)

text \<open>
  C3, as the code has it. In a running game whose bird is at \<open>(100, 250)\<close> with velocity
  0, \<^verbatim>\<open>jump\<close> followed by one tick leaves the velocity at \<open>-7.6\<close> and the height at
  \<open>242\<close>: the height moves by the velocity \<open>-8\<close> of the jump, before gravity.
\<close>

theorem jump_then_tick:
  assumes "running s" and "bird s = \<lparr>bird_x = 100, bird_y = 250, velocity = 0\<rparr>"
  shows "velocity (bird (gameLoop r now (jump s))) = - (76 / 10) \<and>
         bird_y (bird (gameLoop r now (jump s))) = 242"
proof -
  have j: "jump s = s\<lparr>bird := \<lparr>bird_x = 100, bird_y = 250, velocity = JUMP_FORCE\<rparr>\<rparr>"
    using assms by (simp add: jump_def running_def)
  have "running (jump s)"
    using assms(1) by (simp add: j running_def)
  then show ?thesis
    by (simp add: gameLoop_running birdUpdate_cases j game_consts)
qed

theorem jump_then_tick_witness:
  "running (initial\<lparr>gameStarted := True\<rparr>) \<and>
   bird (initial\<lparr>gameStarted := True\<rparr>) = \<lparr>bird_x = 100, bird_y = 250, velocity = 0\<rparr> \<and>
   velocity (bird (gameLoop (1 / 2) 0 (jump (initial\<lparr>gameStarted := True\<rparr>)))) = - (76 / 10) \<and>
   bird_y (bird (gameLoop (1 / 2) 0 (jump (initial\<lparr>gameStarted := True\<rparr>)))) = 242"
  using jump_then_tick [of "initial\<lparr>gameStarted := True\<rparr>" "1 / 2" 0]
  by (simp add: running_def initial_def)

text \<open>
  C3 as the spec states it fails: after \<^verbatim>\<open>jump\<close> and one tick the height of the bird is
  \<open>242\<close>, not \<open>242.4\<close>, when the game was running; when the game had not started, the
  \<^verbatim>\<open>jump\<close> only starts it and the tick leaves the height at \<open>250\<close>.
\<close>

theorem jump_then_tick_counterexample:
  "bird_y (bird (gameLoop (1 / 2) 0 (jump (initial\<lparr>gameStarted := True\<rparr>)))) \<noteq> 2424 / 10 \<and>
   bird_y (bird (gameLoop (1 / 2) 0 (jump initial))) \<noteq> 2424 / 10"
  by (simp add: initial_def jump_def gameLoop_def birdUpdate_cases pipesUpdate_def
      advancePipes_def generatePipe_def checkPipe_def scores_def collides_def game_consts
      Let_def)

text \<open>
  C4. On a tick of a running game where the old height plus the old velocity exceeds
  \<^verbatim>\<open>gameHeight - GROUND_HEIGHT - BIRD_SIZE\<close>, the game is over after the tick and the bird
  is the bird of before the tick: the new height and velocity are dropped, and the height
  is not set to the ground line.
\<close>

theorem ground_collision_freezes_bird:
  assumes "running s"
    and "bird_y (bird s) + velocity (bird s) > gameHeight - GROUND_HEIGHT - BIRD_SIZE"
  shows "gameOver (gameLoop r now s) \<and> \<not> running (gameLoop r now s) \<and>
         bird (gameLoop r now s) = bird s"
  using assms by (simp add: gameLoop_running birdUpdate_cases running_def)

theorem ground_collision_freezes_bird_witness:
  "running (initial\<lparr>gameStarted := True, bird := \<lparr>bird_x = 100, bird_y = 410, velocity = 10\<rparr>\<rparr>) \<and>
   gameOver (gameLoop (1 / 2) 0
     (initial\<lparr>gameStarted := True, bird := \<lparr>bird_x = 100, bird_y = 410, velocity = 10\<rparr>\<rparr>)) \<and>
   bird (gameLoop (1 / 2) 0
     (initial\<lparr>gameStarted := True, bird := \<lparr>bird_x = 100, bird_y = 410, velocity = 10\<rparr>\<rparr>)) =
     \<lparr>bird_x = 100, bird_y = 410, velocity = 10\<rparr>"
  using ground_collision_freezes_bird
    [of "initial\<lparr>gameStarted := True, bird := \<lparr>bird_x = 100, bird_y = 410, velocity = 10\<rparr>\<rparr>"
        "1 / 2" 0]
  by (simp add: running_def initial_def game_consts)

text \<open>
  C9. In every reachable state the height of the bird is at least 0. On a tick of a
  running game where the old height plus the old velocity is negative, the height and the
  velocity are both 0 after the tick, the bird updater does not end the game, and the game
  is over after the tick only if the bird of before the tick collides with a pipe.
\<close>

theorem ceiling_clamp:
  assumes "reachable s"
  shows "0 \<le> bird_y (bird s) \<and>
         (running s \<and> bird_y (bird s) + velocity (bird s) < 0 \<longrightarrow>
            bird_y (bird (gameLoop r now s)) = 0 \<and>
            velocity (bird (gameLoop r now s)) = 0 \<and>
            \<not> snd (birdUpdate (bird s)) \<and>
            (gameOver (gameLoop r now s) \<longleftrightarrow>
               (\<exists>p \<in> set (advancePipes r now (pipes s)). collides (bird s) p)))"
proof
  from assms show "0 \<le> bird_y (bird s)"
  proof (induction rule: reachable.induct)
    case r_initial
    show ?case by (simp add: initial_def)
  next
    case (r_jump s)
    then show ?case by (simp add: jump_def)
  next
    case (r_reset s)
    show ?case by (simp add: resetGame_def)
  next
    case (r_tick s r now)
    show ?case
    proof (cases "running s")
      case True
      then show ?thesis using r_tick.IH by (simp add: gameLoop_running birdUpdate_nonneg)
    next
      case False
      then show ?thesis using r_tick.IH by (simp add: gameLoop_not_running)
    qed
  qed
next
  show "running s \<and> bird_y (bird s) + velocity (bird s) < 0 \<longrightarrow>
            bird_y (bird (gameLoop r now s)) = 0 \<and>
            velocity (bird (gameLoop r now s)) = 0 \<and>
            \<not> snd (birdUpdate (bird s)) \<and>
            (gameOver (gameLoop r now s) \<longleftrightarrow>
               (\<exists>p \<in> set (advancePipes r now (pipes s)). collides (bird s) p))"
    by (simp add: gameLoop_running birdUpdate_cases game_consts)
qed

theorem ceiling_clamp_witness:
  "reachable (run ceiling_run initial) \<and> running (run ceiling_run initial) \<and>
   bird_y (bird (run ceiling_run initial)) + velocity (bird (run ceiling_run initial)) < 0 \<and>
   0 \<le> bird_y (bird (run ceiling_run initial)) \<and>
   bird_y (bird (gameLoop (1 / 2) 0 (run ceiling_run initial))) = 0 \<and>
   velocity (bird (gameLoop (1 / 2) 0 (run ceiling_run initial))) = 0 \<and>
   \<not> gameOver (gameLoop (1 / 2) 0 (run ceiling_run initial))"
  using ceiling_clamp [OF reachable_run [OF r_initial valid_ceiling], of "1 / 2" 0]
    reachable_run [OF r_initial valid_ceiling]
  by (simp add: run_ceiling running_def advancePipes_def movePipe_def onScreen_def
      collides_def game_consts)

subsection \<open>The pipes\<close>

lemma checkPipe_fst:
  "fst (checkPipe b p) = (if scores b p then p\<lparr>passed := True\<rparr> else p)"
  by (simp add: checkPipe_def)

lemma checkPipe_pipe_x: "pipe_x (fst (checkPipe b p)) = pipe_x p"
  by (simp add: checkPipe_fst)

lemma checkPipe_heights:
  "topHeight (fst (checkPipe b p)) = topHeight p"
  "bottomHeight (fst (checkPipe b p)) = bottomHeight p"
  by (simp_all add: checkPipe_fst)

lemma scores_iff: "scores b p \<longleftrightarrow> \<not> passed p \<and> bird_x b > pipe_x p + PIPE_WIDTH"
  by (simp add: scores_def Let_def)

lemma passed_checkPipe: "passed (fst (checkPipe b p)) \<longleftrightarrow> passed p \<or> scores b p"
  by (simp add: checkPipe_fst)

lemma passed_movePipe: "passed (movePipe p) = passed p"
  by (simp add: movePipe_def)

lemma count_passed_checked:
  "length (filter passed (map (\<lambda>p. fst (checkPipe b p)) ps)) =
   length (filter passed ps) + length (filter (scores b) ps)"
  by (induction ps) (auto simp: passed_checkPipe scores_iff)

lemma count_passed_kept:
  "length (filter passed (filter onScreen (map movePipe ps))) +
   length (filter (\<lambda>p. passed p \<and> \<not> onScreen (movePipe p)) ps) =
   length (filter passed ps)"
  by (induction ps) (auto simp: passed_movePipe)

lemma count_passed_advance:
  "length (filter passed (advancePipes r now ps)) =
   length (filter passed (filter onScreen (map movePipe ps)))"
  by (simp add: advancePipes_def Let_def generatePipe_def)

lemma not_onScreen_movePipe:
  "\<not> onScreen (movePipe p) \<longleftrightarrow> pipe_x p - PIPE_SPEED \<le> - PIPE_WIDTH"
  by (auto simp: onScreen_def movePipe_def)

lemma tick_accounting:
  assumes "running s"
  shows "score (gameLoop r now s) + length (filter passed (pipes s)) =
         score s + length (filter passed (pipes (gameLoop r now s))) +
         length (filter (\<lambda>p. passed p \<and> pipe_x p - PIPE_SPEED \<le> - PIPE_WIDTH) (pipes s))"
proof -
  let ?adv = "advancePipes r now (pipes s)"
  have p: "pipes (gameLoop r now s) = map (\<lambda>p. fst (checkPipe (bird s) p)) ?adv"
    using assms by (simp add: gameLoop_running)
  have sc: "score (gameLoop r now s) = score s + length (filter (scores (bird s)) ?adv)"
    using assms by (simp add: gameLoop_running)
  have a: "length (filter passed (pipes (gameLoop r now s))) =
           length (filter passed ?adv) + length (filter (scores (bird s)) ?adv)"
    unfolding p by (rule count_passed_checked)
  have b: "length (filter passed ?adv) =
           length (filter passed (filter onScreen (map movePipe (pipes s))))"
    by (rule count_passed_advance)
  have c: "length (filter passed (filter onScreen (map movePipe (pipes s)))) +
           length (filter (\<lambda>p. passed p \<and> \<not> onScreen (movePipe p)) (pipes s)) =
           length (filter passed (pipes s))"
    by (rule count_passed_kept)
  have d: "(\<lambda>p. passed p \<and> \<not> onScreen (movePipe p)) =
           (\<lambda>p. passed p \<and> pipe_x p - PIPE_SPEED \<le> - PIPE_WIDTH)"
    by (simp add: not_onScreen_movePipe)
  show ?thesis using sc a b c unfolding d by linarith
qed

lemma score_mono: "score s \<le> score (gameLoop r now s)"
  by (cases "running s") (simp_all add: gameLoop_running gameLoop_not_running)

lemma run_snoc: "run (es @ [e]) s = apply_event (run es s) e"
  by (simp add: run_def)

lemma run_Cons: "run (e # es) s = run es (apply_event s e)"
  by (simp add: run_def)

lemma reachable_is_run:
  "reachable s \<Longrightarrow> \<exists>es. list_all valid_event es \<and> s = run es initial"
proof (induction rule: reachable.induct)
  case r_initial
  have "list_all valid_event [] \<and> initial = run [] initial" by (simp add: run_def)
  then show ?case by blast
next
  case (r_jump s)
  then obtain es where es: "list_all valid_event es" "s = run es initial" by blast
  then have "list_all valid_event (es @ [Jump]) \<and> jump s = run (es @ [Jump]) initial"
    by (simp add: run_snoc)
  then show ?case by blast
next
  case (r_reset s)
  then obtain es where es: "list_all valid_event es" "s = run es initial" by blast
  then have "list_all valid_event (es @ [Reset]) \<and> resetGame s = run (es @ [Reset]) initial"
    by (simp add: run_snoc)
  then show ?case by blast
next
  case (r_tick s r now)
  then obtain es where es: "list_all valid_event es" "s = run es initial" by blast
  with r_tick.hyps(2)
  have "list_all valid_event (es @ [Tick r now]) \<and>
        gameLoop r now s = run (es @ [Tick r now]) initial"
    by (simp add: run_snoc)
  then show ?case by blast
qed

lemma pruned_now_eq:
  "running s \<Longrightarrow>
   pruned_now s =
     length (filter (\<lambda>p. passed p \<and> pipe_x p - PIPE_SPEED \<le> - PIPE_WIDTH) (pipes s))"
  by (simp add: pruned_now_def not_onScreen_movePipe)

lemma score_run:
  "score s = length (filter passed (pipes s)) + n \<Longrightarrow>
   score (run es s) = length (filter passed (pipes (run es s))) + count_pruned n s es"
proof (induction es arbitrary: n s)
  case Nil
  then show ?case by (simp add: run_def)
next
  case (Cons e es)
  show ?case
  proof (cases e)
    case Jump
    have "score (jump s) = length (filter passed (pipes (jump s))) + n"
      using Cons.prems by (simp add: jump_def)
    from Cons.IH [OF this] show ?thesis by (simp add: Jump run_Cons)
  next
    case Reset
    have "score (resetGame s) = length (filter passed (pipes (resetGame s))) + 0"
      by (simp add: resetGame_def)
    from Cons.IH [OF this] show ?thesis by (simp add: Reset run_Cons)
  next
    case (Tick r now)
    have "score (gameLoop r now s) =
          length (filter passed (pipes (gameLoop r now s))) + (n + pruned_now s)"
    proof (cases "running s")
      case True
      from tick_accounting [OF True, of r now] Cons.prems show ?thesis
        by (simp add: pruned_now_eq [OF True])
    next
      case False
      then show ?thesis using Cons.prems by (simp add: gameLoop_not_running pruned_now_def)
    qed
    from Cons.IH [OF this] show ?thesis by (simp add: Tick run_Cons)
  qed
qed

lemma score_run_initial:
  "score (run es initial) =
     length (filter passed (pipes (run es initial))) + count_pruned 0 initial es"
  by (rule score_run) (simp add: initial_def)


text \<open>
  C1, as the code has it. In every reachable state the score is the number of pipes of
  the list whose \<^verbatim>\<open>passed\<close> flag is set plus the number of passed pipes that the ticks
  have removed from the list since the last \<^verbatim>\<open>resetGame\<close> (since the start when there was
  none). So the score is at least the number of passed pipes of the list, and equal to it
  exactly when no passed pipe has been removed since the last reset. No tick decreases the
  score, and on a tick of a running game the score less the number of passed pipes of the
  list grows by exactly the number of passed pipes the tick removes: removing a pipe
  leaves the score as it is.
\<close>

theorem score_bounds_passed_pipes:
  assumes "reachable s"
  shows "length (filter passed (pipes s)) \<le> score s \<and>
         score s \<le> score (gameLoop r now s) \<and>
         (running s \<longrightarrow>
            score (gameLoop r now s) + length (filter passed (pipes s)) =
            score s + length (filter passed (pipes (gameLoop r now s))) +
            length (filter (\<lambda>p. passed p \<and> pipe_x p - PIPE_SPEED \<le> - PIPE_WIDTH) (pipes s))) \<and>
         (\<exists>es. list_all valid_event es \<and> s = run es initial \<and>
            score s = length (filter passed (pipes s)) + count_pruned 0 initial es) \<and>
         score (run fs initial) =
           length (filter passed (pipes (run fs initial))) + count_pruned 0 initial fs \<and>
         (score (run fs initial) = length (filter passed (pipes (run fs initial))) \<longleftrightarrow>
            count_pruned 0 initial fs = 0)"
proof -
  from reachable_is_run [OF assms] obtain es where
    es: "list_all valid_event es" "s = run es initial" by blast
  have ex: "\<exists>es. list_all valid_event es \<and> s = run es initial \<and>
            score s = length (filter passed (pipes s)) + count_pruned 0 initial es"
    using es score_run_initial [of es] by blast
  then have le: "length (filter passed (pipes s)) \<le> score s"
    by auto
  have acc: "running s \<longrightarrow>
            score (gameLoop r now s) + length (filter passed (pipes s)) =
            score s + length (filter passed (pipes (gameLoop r now s))) +
            length (filter (\<lambda>p. passed p \<and> pipe_x p - PIPE_SPEED \<le> - PIPE_WIDTH) (pipes s))"
    using tick_accounting [of s r now] by blast
  have iff: "score (run fs initial) = length (filter passed (pipes (run fs initial))) \<longleftrightarrow>
            count_pruned 0 initial fs = 0"
    using score_run_initial [of fs] by simp
  show ?thesis
    using le score_mono [of s r now] acc ex score_run_initial [of fs] iff by blast
qed

theorem score_bounds_passed_pipes_witness:
  "reachable (run before_prune_run initial) \<and> running (run before_prune_run initial) \<and>
   length (filter passed (pipes (run before_prune_run initial))) = 1 \<and>
   score (run before_prune_run initial) = 1 \<and>
   score (gameLoop (1 / 2) 0 (run before_prune_run initial)) = 1 \<and>
   length (filter (\<lambda>p. passed p \<and> pipe_x p - PIPE_SPEED \<le> - PIPE_WIDTH)
     (pipes (run before_prune_run initial))) = 1 \<and>
   length (filter passed (pipes (gameLoop (1 / 2) 0 (run before_prune_run initial)))) = 0 \<and>
   count_pruned 0 initial (before_prune_run @ [Tick (1 / 2) 0]) = 1"
  using score_bounds_passed_pipes [OF reachable_run [OF r_initial valid_before_prune],
      of "1 / 2" 0 "before_prune_run @ [Tick (1 / 2) 0]"]
    reachable_run [OF r_initial valid_before_prune]
  by (simp add: run_snoc run_before_prune running_def tick_defs)

text \<open>
  C1 as the spec states it fails: after the tick that removes the first pipe, which the
  bird had passed, the state is reachable, the score is 1, and no pipe of the list has
  its \<^verbatim>\<open>passed\<close> flag set.
\<close>

theorem score_counts_passed_counterexample:
  "reachable (gameLoop (1 / 2) 0 (run before_prune_run initial)) \<and>
   score (gameLoop (1 / 2) 0 (run before_prune_run initial)) = 1 \<and>
   length (filter passed (pipes (gameLoop (1 / 2) 0 (run before_prune_run initial)))) = 0"
proof -
  have "reachable (gameLoop (1 / 2) 0 (run before_prune_run initial))"
    by (rule r_tick [OF reachable_run [OF r_initial valid_before_prune]])
      (simp add: random_ok_def)
  moreover have "gameLoop (1 / 2) 0 (run before_prune_run initial) =
     \<lparr>bird = \<lparr>bird_x = 100, bird_y = 166, velocity = 2 / 5\<rparr>,
      pipes = [\<lparr>pipe_x = 242, topHeight = 145, bottomHeight = 145, pipe_id = 0,
                passed = False\<rparr>,
               \<lparr>pipe_x = 544, topHeight = 145, bottomHeight = 145, pipe_id = 0,
                passed = False\<rparr>],
      gameStarted = True, gameOver = False, score = 1\<rparr>"
    by (simp add: run_before_prune tick_defs)
  ultimately show ?thesis by simp
qed


lemma pipe_x_movePipe: "pipe_x (movePipe p) = pipe_x p - PIPE_SPEED"
  by (simp add: movePipe_def)

lemma heights_movePipe:
  "topHeight (movePipe p) = topHeight p" "bottomHeight (movePipe p) = bottomHeight p"
  by (simp_all add: movePipe_def)

lemma pipe_x_kept:
  "map pipe_x (filter onScreen (map movePipe ps)) =
   filter (\<lambda>v. v > - PIPE_WIDTH) (map (\<lambda>p. pipe_x p - PIPE_SPEED) ps)"
  by (induction ps) (simp_all add: onScreen_def pipe_x_movePipe)

lemma advancePipes_cases:
  "advancePipes r now ps =
     (if filter onScreen (map movePipe ps) = [] \<or>
         pipe_x (last (filter onScreen (map movePipe ps))) < gameWidth - 300
      then filter onScreen (map movePipe ps) @ [generatePipe gameWidth r now]
      else filter onScreen (map movePipe ps))"
  by (simp add: advancePipes_def Let_def)

lemma set_advancePipes:
  "set (advancePipes r now ps) \<subseteq> movePipe ` set ps \<union> {generatePipe gameWidth r now}"
  by (auto simp: advancePipes_cases)

lemma generatePipe_fields:
  "pipe_x (generatePipe x r now) = x" "\<not> passed (generatePipe x r now)"
  by (simp_all add: generatePipe_def Let_def)

lemma generatePipe_geometry:
  assumes "random_ok r"
  shows "topHeight (generatePipe x r now) + PIPE_GAP + bottomHeight (generatePipe x r now) =
           gameHeight - GROUND_HEIGHT \<and>
         50 \<le> topHeight (generatePipe x r now) \<and>
         topHeight (generatePipe x r now) \<le> gameHeight - GROUND_HEIGHT - PIPE_GAP - 50"
  using assms by (simp add: generatePipe_def Let_def game_consts random_ok_def)

text \<open>
  C7. Every pipe that \<^verbatim>\<open>generatePipe\<close> returns for a value of \<^verbatim>\<open>Math.random()\<close> in
  \<open>[0, 1)\<close>, and every pipe of every reachable state, has
  \<^verbatim>\<open>topHeight + PIPE_GAP + bottomHeight = gameHeight - GROUND_HEIGHT\<close> and a
  \<^verbatim>\<open>topHeight\<close> between 50 and \<^verbatim>\<open>gameHeight - GROUND_HEIGHT - PIPE_GAP - 50\<close>, the
  \<^verbatim>\<open>minHeight\<close> and \<^verbatim>\<open>maxHeight\<close> of the source.
\<close>

theorem spawned_pipe_geometry:
  "(random_ok r \<longrightarrow>
      topHeight (generatePipe x r now) + PIPE_GAP + bottomHeight (generatePipe x r now) =
        gameHeight - GROUND_HEIGHT \<and>
      50 \<le> topHeight (generatePipe x r now) \<and>
      topHeight (generatePipe x r now) \<le> gameHeight - GROUND_HEIGHT - PIPE_GAP - 50) \<and>
   (reachable s \<longrightarrow>
      (\<forall>p \<in> set (pipes s).
         topHeight p + PIPE_GAP + bottomHeight p = gameHeight - GROUND_HEIGHT \<and>
         50 \<le> topHeight p \<and>
         topHeight p \<le> gameHeight - GROUND_HEIGHT - PIPE_GAP - 50))"
proof (intro conjI impI)
  assume "random_ok r"
  from generatePipe_geometry [OF this, of x now]
  show "topHeight (generatePipe x r now) + PIPE_GAP + bottomHeight (generatePipe x r now) =
        gameHeight - GROUND_HEIGHT"
    and "50 \<le> topHeight (generatePipe x r now)"
    and "topHeight (generatePipe x r now) \<le> gameHeight - GROUND_HEIGHT - PIPE_GAP - 50"
    by simp_all
next
  assume "reachable s"
  then show "\<forall>p \<in> set (pipes s).
         topHeight p + PIPE_GAP + bottomHeight p = gameHeight - GROUND_HEIGHT \<and>
         50 \<le> topHeight p \<and>
         topHeight p \<le> gameHeight - GROUND_HEIGHT - PIPE_GAP - 50"
  proof (induction rule: reachable.induct)
    case r_initial
    show ?case by (simp add: initial_def)
  next
    case (r_jump s)
    then show ?case by (simp add: jump_def)
  next
    case (r_reset s)
    show ?case by (simp add: resetGame_def)
  next
    case (r_tick s r now)
    show ?case
    proof (cases "running s")
      case False
      then show ?thesis using r_tick.IH by (simp add: gameLoop_not_running)
    next
      case True
      show ?thesis
      proof
        fix p
        assume "p \<in> set (pipes (gameLoop r now s))"
        then obtain q where q: "q \<in> set (advancePipes r now (pipes s))"
          and p: "p = fst (checkPipe (bird s) q)"
          using True by (auto simp: gameLoop_running)
        from q set_advancePipes [of r now "pipes s"]
        consider q0 where "q0 \<in> set (pipes s)" "q = movePipe q0"
          | "q = generatePipe gameWidth r now"
          by auto
        then have "topHeight q + PIPE_GAP + bottomHeight q = gameHeight - GROUND_HEIGHT \<and>
           50 \<le> topHeight q \<and> topHeight q \<le> gameHeight - GROUND_HEIGHT - PIPE_GAP - 50"
        proof cases
          case 1
          then show ?thesis using r_tick.IH by (simp add: heights_movePipe)
        next
          case 2
          then show ?thesis using generatePipe_geometry [OF r_tick.hyps(2)] by simp
        qed
        then show "topHeight p + PIPE_GAP + bottomHeight p = gameHeight - GROUND_HEIGHT \<and>
           50 \<le> topHeight p \<and> topHeight p \<le> gameHeight - GROUND_HEIGHT - PIPE_GAP - 50"
          by (simp add: p checkPipe_heights)
      qed
    qed
  qed
qed

theorem spawned_pipe_geometry_witness:
  "random_ok (1 / 2) \<and> reachable (run before_prune_run initial) \<and>
   topHeight (generatePipe 800 (1 / 2) 0) = 145 \<and>
   bottomHeight (generatePipe 800 (1 / 2) 0) = 145 \<and>
   map topHeight (pipes (run before_prune_run initial)) = [145, 145, 145]"
  using spawned_pipe_geometry [of "1 / 2" 800 0 "run before_prune_run initial"]
    reachable_run [OF r_initial valid_before_prune]
  by (simp add: run_before_prune random_ok_def generatePipe_def game_consts)

lemma sorted_last_Max:
  fixes xs :: "rat list"
  assumes "sorted xs" and "xs \<noteq> []"
  shows "last xs = Max (set xs)"
proof -
  have "\<forall>v \<in> set xs. v \<le> last xs"
    using assms
  proof (induction xs)
    case Nil
    then show ?case by simp
  next
    case (Cons a xs)
    then show ?case by (cases xs) auto
  qed
  then show ?thesis
    using assms(2) by (intro Max_eqI [symmetric]) auto
qed

lemma sorted_moved:
  fixes xs :: "rat list"
  shows "sorted xs \<Longrightarrow> sorted (filter P (map (\<lambda>v. v - c) xs))"
  by (induction xs) auto

lemma pipe_x_tick:
  assumes "running s"
  shows "map pipe_x (pipes (gameLoop r now s)) = map pipe_x (advancePipes r now (pipes s))"
  using assms by (simp add: gameLoop_running checkPipe_pipe_x comp_def)

lemma pipe_x_advance:
  "map pipe_x (advancePipes r now ps) =
     (let kept = filter (\<lambda>v. v > - PIPE_WIDTH) (map (\<lambda>p. pipe_x p - PIPE_SPEED) ps)
      in if kept = [] \<or> last kept < gameWidth - 300 then kept @ [gameWidth] else kept)"
proof -
  let ?k = "filter onScreen (map movePipe ps)"
  have k: "map pipe_x ?k = filter (\<lambda>v. v > - PIPE_WIDTH) (map (\<lambda>p. pipe_x p - PIPE_SPEED) ps)"
    by (rule pipe_x_kept)
  have e: "?k = [] \<longleftrightarrow> map pipe_x ?k = []" by simp
  have l: "?k \<noteq> [] \<Longrightarrow> pipe_x (last ?k) = last (map pipe_x ?k)"
    by (simp add: last_map)
  show ?thesis
    unfolding advancePipes_cases Let_def k [symmetric]
    using e l by (auto simp: generatePipe_fields)
qed

lemma reachable_pipes_sorted:
  "reachable s \<Longrightarrow>
     sorted (map pipe_x (pipes s)) \<and> (\<forall>p \<in> set (pipes s). pipe_x p \<le> gameWidth)"
proof (induction rule: reachable.induct)
  case r_initial
  show ?case by (simp add: initial_def)
next
  case (r_jump s)
  then show ?case by (simp add: jump_def)
next
  case (r_reset s)
  show ?case by (simp add: resetGame_def)
next
  case (r_tick s r now)
  show ?case
  proof (cases "running s")
    case False
    then show ?thesis using r_tick.IH by (simp add: gameLoop_not_running)
  next
    case True
    let ?xs = "map pipe_x (pipes s)"
    let ?kept = "filter (\<lambda>v. v > - PIPE_WIDTH) (map (\<lambda>v. v - PIPE_SPEED) ?xs)"
    have kept: "filter (\<lambda>v. v > - PIPE_WIDTH) (map (\<lambda>p. pipe_x p - PIPE_SPEED) (pipes s)) = ?kept"
      by (simp add: comp_def)
    have s: "sorted ?kept"
      using r_tick.IH by (intro sorted_moved) simp
    have b: "\<forall>v \<in> set ?kept. v \<le> gameWidth"
      using r_tick.IH by (auto simp: PIPE_SPEED_def)
    have x: "map pipe_x (pipes (gameLoop r now s)) =
        (if ?kept = [] \<or> last ?kept < gameWidth - 300 then ?kept @ [gameWidth] else ?kept)"
      using pipe_x_tick [OF True, of r now] pipe_x_advance [of r now "pipes s"]
      unfolding kept Let_def by simp
    have "sorted (map pipe_x (pipes (gameLoop r now s)))"
      unfolding x using s b by (simp add: sorted_append)
    moreover have "\<forall>v \<in> set (map pipe_x (pipes (gameLoop r now s))). v \<le> gameWidth"
      unfolding x using b by simp
    ultimately show ?thesis by simp
  qed
qed

text \<open>
  C8. On a tick of a reachable running game, the positions of the pipes after the tick
  are the old positions less \<^verbatim>\<open>PIPE_SPEED\<close> (the step is one tick, \<open>dt = 1\<close>), without
  those that are at most \<^verbatim>\<open>-PIPE_WIDTH\<close>, followed by one more position
  \<^verbatim>\<open>gameWidth\<close> exactly when no pipe is left or the largest position left is below
  \<^verbatim>\<open>gameWidth - 300\<close>; the pipe appended is not passed. The source tests the last pipe
  of the list, which is the rightmost one in every reachable state.
\<close>

theorem obstacle_field_advance:
  assumes "reachable s" and "running s"
  shows "let kept = filter (\<lambda>v. v > - PIPE_WIDTH) (map (\<lambda>p. pipe_x p - PIPE_SPEED * 1) (pipes s));
             spawn = (kept = [] \<or> Max (set kept) < gameWidth - 300)
         in map pipe_x (pipes (gameLoop r now s)) = (if spawn then kept @ [gameWidth] else kept) \<and>
            (spawn \<longrightarrow> \<not> passed (last (pipes (gameLoop r now s)))) \<and>
            (kept \<noteq> [] \<longrightarrow> last kept = Max (set kept))"
proof -
  define kept where
    "kept = filter (\<lambda>v. v > - PIPE_WIDTH) (map (\<lambda>p. pipe_x p - PIPE_SPEED) (pipes s))"
  define spawn where "spawn \<longleftrightarrow> kept = [] \<or> Max (set kept) < gameWidth - 300"
  have kept2: "kept = filter (\<lambda>v. v > - PIPE_WIDTH) (map (\<lambda>v. v - PIPE_SPEED) (map pipe_x (pipes s)))"
    by (simp add: kept_def comp_def)
  have "sorted (map pipe_x (pipes s))"
    using reachable_pipes_sorted [OF assms(1)] by simp
  then have "sorted kept"
    unfolding kept2 by (rule sorted_moved)
  then have lm: "kept \<noteq> [] \<longrightarrow> last kept = Max (set kept)"
    by (simp add: sorted_last_Max)
  then have sp: "spawn \<longleftrightarrow> kept = [] \<or> last kept < gameWidth - 300"
    by (auto simp: spawn_def)
  have x: "map pipe_x (pipes (gameLoop r now s)) = (if spawn then kept @ [gameWidth] else kept)"
    using pipe_x_tick [OF assms(2), of r now] pipe_x_advance [of r now "pipes s"]
    by (simp add: Let_def kept_def [symmetric] sp)
  have np: "spawn \<longrightarrow> \<not> passed (last (pipes (gameLoop r now s)))"
  proof
    assume spawn
    have k: "filter onScreen (map movePipe (pipes s)) = [] \<longleftrightarrow> kept = []"
      using pipe_x_kept [of "pipes s"] unfolding kept_def [symmetric]
      by (metis map_is_Nil_conv)
    have l: "filter onScreen (map movePipe (pipes s)) \<noteq> [] \<Longrightarrow>
        pipe_x (last (filter onScreen (map movePipe (pipes s)))) = last kept"
      using pipe_x_kept [of "pipes s"] unfolding kept_def [symmetric]
      by (metis last_map)
    have "advancePipes r now (pipes s) =
        filter onScreen (map movePipe (pipes s)) @ [generatePipe gameWidth r now]"
      using \<open>spawn\<close> sp k l by (auto simp: advancePipes_cases)
    then have "last (pipes (gameLoop r now s)) =
        fst (checkPipe (bird s) (generatePipe gameWidth r now))"
      using assms(2) by (simp add: gameLoop_running)
    then show "\<not> passed (last (pipes (gameLoop r now s)))"
      using reachable_bird_x [OF assms(1)]
      by (simp add: passed_checkPipe scores_iff generatePipe_fields game_consts)
  qed
  show ?thesis
    using x np lm unfolding spawn_def by (simp add: Let_def kept_def [symmetric])
qed

theorem obstacle_field_advance_witness:
  "reachable (run before_prune_run initial) \<and> running (run before_prune_run initial) \<and>
   map pipe_x (pipes (run before_prune_run initial)) = [- 58, 244, 546] \<and>
   map pipe_x (pipes (gameLoop (1 / 2) 0 (run before_prune_run initial))) = [242, 544]"
  using obstacle_field_advance [OF reachable_run [OF r_initial valid_before_prune], of "1 / 2" 0]
    reachable_run [OF r_initial valid_before_prune]
  by (simp add: run_before_prune running_def game_consts)

lemma move_and_check:
  "fst (checkPipe b (movePipe p)) =
     p\<lparr>pipe_x := pipe_x p - PIPE_SPEED,
       passed := passed p \<or> bird_x b > pipe_x p - PIPE_SPEED + PIPE_WIDTH\<rparr>"
  by (cases p) (simp add: checkPipe_fst scores_iff movePipe_def)

lemma kept_from_old:
  "filter onScreen (map movePipe ps) =
   map movePipe (filter (\<lambda>p. pipe_x p - PIPE_SPEED > - PIPE_WIDTH) ps)"
  by (induction ps) (simp_all add: onScreen_def pipe_x_movePipe)

lemma new_pipe_unchecked:
  "bird_x b = 100 \<Longrightarrow>
   fst (checkPipe b (generatePipe gameWidth r now)) = generatePipe gameWidth r now"
  by (simp add: checkPipe_fst scores_iff generatePipe_fields game_consts)

lemma new_pipe_no_score:
  "bird_x b = 100 \<Longrightarrow> \<not> scores b (generatePipe gameWidth r now)"
  by (simp add: scores_iff generatePipe_fields game_consts)

lemma tick_pipes_from_old:
  assumes "running s" and "bird_x (bird s) = 100"
  shows "\<exists>spawned.
     pipes (gameLoop r now s) =
       map (\<lambda>p. p\<lparr>pipe_x := pipe_x p - PIPE_SPEED,
                  passed := passed p \<or> bird_x (bird s) > pipe_x p - PIPE_SPEED + PIPE_WIDTH\<rparr>)
           (filter (\<lambda>p. pipe_x p - PIPE_SPEED > - PIPE_WIDTH) (pipes s)) @ spawned \<and>
     (spawned = [] \<or> spawned = [generatePipe gameWidth r now])"
proof -
  let ?f = "\<lambda>p. p\<lparr>pipe_x := pipe_x p - PIPE_SPEED,
                  passed := passed p \<or> bird_x (bird s) > pipe_x p - PIPE_SPEED + PIPE_WIDTH\<rparr>"
  let ?old = "filter (\<lambda>p. pipe_x p - PIPE_SPEED > - PIPE_WIDTH) (pipes s)"
  have m: "map (\<lambda>p. fst (checkPipe (bird s) p)) (filter onScreen (map movePipe (pipes s))) =
           map ?f ?old"
    by (simp add: kept_from_old move_and_check comp_def)
  have p: "pipes (gameLoop r now s) =
           map (\<lambda>p. fst (checkPipe (bird s) p)) (advancePipes r now (pipes s))"
    using assms(1) by (simp add: gameLoop_running)
  show ?thesis
  proof (cases "filter onScreen (map movePipe (pipes s)) = [] \<or>
         pipe_x (last (filter onScreen (map movePipe (pipes s)))) < gameWidth - 300")
    case True
    then have "advancePipes r now (pipes s) =
        filter onScreen (map movePipe (pipes s)) @ [generatePipe gameWidth r now]"
      by (simp add: advancePipes_cases)
    then have "pipes (gameLoop r now s) = map ?f ?old @ [generatePipe gameWidth r now]"
      using p m new_pipe_unchecked [OF assms(2)] by simp
    then show ?thesis by blast
  next
    case False
    then have "advancePipes r now (pipes s) = filter onScreen (map movePipe (pipes s))"
      by (simp add: advancePipes_cases)
    then have "pipes (gameLoop r now s) = map ?f ?old @ []"
      using p m by simp
    then show ?thesis by blast
  qed
qed

lemma reachable_passed_iff:
  "reachable s \<Longrightarrow>
   \<forall>q \<in> set (pipes s). passed q \<longleftrightarrow> bird_x (bird s) > pipe_x q + PIPE_WIDTH"
proof (induction rule: reachable.induct)
  case r_initial
  show ?case by (simp add: initial_def)
next
  case (r_jump s)
  then show ?case by (simp add: jump_def)
next
  case (r_reset s)
  show ?case by (simp add: resetGame_def)
next
  case (r_tick s r now)
  show ?case
  proof (cases "running s")
    case False
    then show ?thesis using r_tick.IH by (simp add: gameLoop_not_running)
  next
    case True
    have bx: "bird_x (bird s) = 100" by (rule reachable_bird_x [OF r_tick.hyps(1)])
    have bx': "bird_x (bird (gameLoop r now s)) = 100"
      using True bx by (simp add: gameLoop_running birdUpdate_bird_x)
    from tick_pipes_from_old [OF True bx, of r now] obtain spawned where
      ps: "pipes (gameLoop r now s) =
         map (\<lambda>p. p\<lparr>pipe_x := pipe_x p - PIPE_SPEED,
                  passed := passed p \<or> bird_x (bird s) > pipe_x p - PIPE_SPEED + PIPE_WIDTH\<rparr>)
           (filter (\<lambda>p. pipe_x p - PIPE_SPEED > - PIPE_WIDTH) (pipes s)) @ spawned"
      and sp: "spawned = [] \<or> spawned = [generatePipe gameWidth r now]"
      by blast
    show ?thesis
    proof
      fix q
      assume "q \<in> set (pipes (gameLoop r now s))"
      then consider p where "p \<in> set (pipes s)"
          "q = p\<lparr>pipe_x := pipe_x p - PIPE_SPEED,
                 passed := passed p \<or> bird_x (bird s) > pipe_x p - PIPE_SPEED + PIPE_WIDTH\<rparr>"
        | "q = generatePipe gameWidth r now"
        using ps sp by auto
      then show "passed q \<longleftrightarrow> bird_x (bird (gameLoop r now s)) > pipe_x q + PIPE_WIDTH"
      proof cases
        case 1
        from r_tick.IH 1(1) have "passed p \<longleftrightarrow> bird_x (bird s) > pipe_x p + PIPE_WIDTH"
          by blast
        then show ?thesis
          using bx bx' by (auto simp: 1(2) game_consts)
      next
        case 2
        then show ?thesis using bx' by (simp add: generatePipe_fields game_consts)
      qed
    qed
  qed
qed

lemma unpassed_stays_on_screen:
  assumes "reachable s" and "p \<in> set (pipes s)" and "\<not> passed p"
  shows "onScreen (movePipe p)"
proof -
  have "\<not> bird_x (bird s) > pipe_x p + PIPE_WIDTH"
    using reachable_passed_iff [OF assms(1)] assms(2,3) by blast
  then show ?thesis
    using reachable_bird_x [OF assms(1)]
    by (simp add: onScreen_def pipe_x_movePipe game_consts)
qed

lemma tick_gain_from_old:
  assumes "reachable s" and "running s"
  shows "score (gameLoop r now s) =
     score s + length (filter (\<lambda>p. \<not> passed p \<and>
                                    bird_x (bird s) > pipe_x p - PIPE_SPEED + PIPE_WIDTH) (pipes s))"
proof -
  have bx: "bird_x (bird s) = 100" by (rule reachable_bird_x [OF assms(1)])
  let ?kept = "filter onScreen (map movePipe (pipes s))"
  have "length (filter (scores (bird s)) (advancePipes r now (pipes s))) =
        length (filter (scores (bird s)) ?kept)"
    using new_pipe_no_score [OF bx] by (simp add: advancePipes_cases)
  also have "?kept = map movePipe (filter (\<lambda>p. onScreen (movePipe p)) (pipes s))"
    by (simp add: filter_map comp_def)
  also have "length (filter (scores (bird s)) (map movePipe (filter (\<lambda>p. onScreen (movePipe p)) (pipes s)))) =
        length (filter (\<lambda>p. onScreen (movePipe p) \<and> scores (bird s) (movePipe p)) (pipes s))"
    by (simp add: filter_map comp_def conj_commute)
  also have "filter (\<lambda>p. onScreen (movePipe p) \<and> scores (bird s) (movePipe p)) (pipes s) =
        filter (\<lambda>p. \<not> passed p \<and> bird_x (bird s) > pipe_x p - PIPE_SPEED + PIPE_WIDTH) (pipes s)"
    using unpassed_stays_on_screen [OF assms(1)]
    by (intro filter_cong refl) (auto simp: scores_iff passed_movePipe pipe_x_movePipe)
  finally show ?thesis
    using assms(2) by (simp add: gameLoop_running)
qed

lemma reachable_pipes_distinct: "reachable s \<Longrightarrow> distinct (map pipe_x (pipes s))"
proof (induction rule: reachable.induct)
  case r_initial
  show ?case by (simp add: initial_def)
next
  case (r_jump s)
  then show ?case by (simp add: jump_def)
next
  case (r_reset s)
  show ?case by (simp add: resetGame_def)
next
  case (r_tick s r now)
  show ?case
  proof (cases "running s")
    case False
    then show ?thesis using r_tick.IH by (simp add: gameLoop_not_running)
  next
    case True
    let ?xs = "map pipe_x (pipes s)"
    let ?kept = "filter (\<lambda>v. v > - PIPE_WIDTH) (map (\<lambda>v. v - PIPE_SPEED) ?xs)"
    have kept: "filter (\<lambda>v. v > - PIPE_WIDTH) (map (\<lambda>p. pipe_x p - PIPE_SPEED) (pipes s)) = ?kept"
      by (simp add: comp_def)
    have "distinct (map (\<lambda>v. v - PIPE_SPEED) ?xs)"
      using r_tick.IH by (simp add: distinct_map inj_on_def del: map_map)
    then have d: "distinct ?kept" by simp
    have "\<forall>p \<in> set (pipes s). pipe_x p \<le> gameWidth"
      using reachable_pipes_sorted [OF r_tick.hyps(1)] by simp
    then have b: "gameWidth \<notin> set ?kept"
      by (auto simp: PIPE_SPEED_def)
    have x: "map pipe_x (pipes (gameLoop r now s)) =
        (if ?kept = [] \<or> last ?kept < gameWidth - 300 then ?kept @ [gameWidth] else ?kept)"
      using pipe_x_tick [OF True, of r now] pipe_x_advance [of r now "pipes s"]
      unfolding kept Let_def by simp
    show ?thesis
      unfolding x using d b by simp
  qed
qed

lemma same_obstacle_later:
  assumes "same_obstacle s p t q" and "reachable s"
  shows "reachable t \<and> q \<in> set (pipes t) \<and> pipe_x q \<le> pipe_x p"
  using assms
proof (induction rule: same_obstacle.induct)
  case (so_here p s)
  then show ?case by simp
next
  case (so_jump s p t q)
  then have "reachable t \<and> q \<in> set (pipes t) \<and> pipe_x q \<le> pipe_x p" by blast
  moreover have "pipes (jump t) = pipes t" by (simp add: jump_def)
  ultimately show ?case by (simp add: r_jump)
next
  case (so_tick s p t q r q' now)
  then have "reachable t \<and> q \<in> set (pipes t) \<and> pipe_x q \<le> pipe_x p" by blast
  then show ?case
    using so_tick.hyps by (simp add: r_tick PIPE_SPEED_def)
qed

lemma same_obstacle_passed:
  assumes "same_obstacle s p t q" and "reachable s" and "passed p"
  shows "passed q"
proof -
  from same_obstacle_later [OF assms(1,2)]
  have t: "reachable t" and q: "q \<in> set (pipes t)" and le: "pipe_x q \<le> pipe_x p"
    by simp_all
  have "p \<in> set (pipes s)"
    using assms(1) by (induction rule: same_obstacle.induct) simp_all
  then have "bird_x (bird s) > pipe_x p + PIPE_WIDTH"
    using reachable_passed_iff [OF assms(2)] assms(3) by blast
  then have "bird_x (bird t) > pipe_x q + PIPE_WIDTH"
    using le reachable_bird_x [OF assms(2)] reachable_bird_x [OF t] by simp
  then show ?thesis
    using reachable_passed_iff [OF t] q by blast
qed


text \<open>
  C6. In every reachable state a pipe has its \<^verbatim>\<open>passed\<close> flag set exactly when its right
  edge \<^verbatim>\<open>pipe.x + PIPE_WIDTH\<close> is left of the left edge of the bird, and the positions of
  the pipes are distinct. On a tick of a running game the score grows by one for each pipe
  of the list before the tick whose flag is not set and whose right edge, after the move
  of this tick, is left of the bird: by the first part, the first tick on which that
  holds for the pipe. The pipes after the tick are the pipes before it that stay on the
  screen, moved, with the flag set for those that scored and kept for the others, and at
  most one new pipe. A pipe whose flag is set keeps it in every later state of the game
  that still has the pipe, and on any later tick the score grows as if that pipe were not
  in the list: no pipe scores twice.
\<close>

theorem score_fires_once:
  assumes "reachable s"
  shows "(\<forall>q \<in> set (pipes s). passed q \<longleftrightarrow> bird_x (bird s) > pipe_x q + PIPE_WIDTH) \<and>
         distinct (map pipe_x (pipes s)) \<and>
         (running s \<longrightarrow>
            score (gameLoop r now s) =
              score s + length (filter (\<lambda>p. \<not> passed p \<and>
                             bird_x (bird s) > pipe_x p - PIPE_SPEED + PIPE_WIDTH) (pipes s)) \<and>
            (\<exists>spawned.
               pipes (gameLoop r now s) =
                 map (\<lambda>p. p\<lparr>pipe_x := pipe_x p - PIPE_SPEED,
                            passed := passed p \<or>
                              bird_x (bird s) > pipe_x p - PIPE_SPEED + PIPE_WIDTH\<rparr>)
                     (filter (\<lambda>p. pipe_x p - PIPE_SPEED > - PIPE_WIDTH) (pipes s)) @ spawned \<and>
               (spawned = [] \<or> spawned = [generatePipe gameWidth r now]))) \<and>
         (same_obstacle s p t q \<and> passed p \<longrightarrow>
            reachable t \<and> q \<in> set (pipes t) \<and> passed q \<and>
            score (gameLoop r' now' t) =
              score t +
              (if running t
               then length (filter (\<lambda>p'. p' \<noteq> q \<and> \<not> passed p' \<and>
                              bird_x (bird t) > pipe_x p' - PIPE_SPEED + PIPE_WIDTH) (pipes t))
               else 0))"
proof (intro conjI impI)
  show "\<forall>q \<in> set (pipes s). passed q \<longleftrightarrow> bird_x (bird s) > pipe_x q + PIPE_WIDTH"
    by (rule reachable_passed_iff [OF assms])
  show "distinct (map pipe_x (pipes s))"
    by (rule reachable_pipes_distinct [OF assms])
next
  assume "running s"
  then show "score (gameLoop r now s) =
              score s + length (filter (\<lambda>p. \<not> passed p \<and>
                             bird_x (bird s) > pipe_x p - PIPE_SPEED + PIPE_WIDTH) (pipes s))"
    by (rule tick_gain_from_old [OF assms])
next
  assume "running s"
  then show "\<exists>spawned.
               pipes (gameLoop r now s) =
                 map (\<lambda>p. p\<lparr>pipe_x := pipe_x p - PIPE_SPEED,
                            passed := passed p \<or>
                              bird_x (bird s) > pipe_x p - PIPE_SPEED + PIPE_WIDTH\<rparr>)
                     (filter (\<lambda>p. pipe_x p - PIPE_SPEED > - PIPE_WIDTH) (pipes s)) @ spawned \<and>
               (spawned = [] \<or> spawned = [generatePipe gameWidth r now])"
    by (rule tick_pipes_from_old [OF _ reachable_bird_x [OF assms]])
next
  assume a: "same_obstacle s p t q \<and> passed p"
  from same_obstacle_later [OF _ assms] a
  show t: "reachable t" and q: "q \<in> set (pipes t)" by blast+
  from same_obstacle_passed [OF _ assms] a show pq: "passed q" by blast
  show "score (gameLoop r' now' t) =
              score t +
              (if running t
               then length (filter (\<lambda>p'. p' \<noteq> q \<and> \<not> passed p' \<and>
                              bird_x (bird t) > pipe_x p' - PIPE_SPEED + PIPE_WIDTH) (pipes t))
               else 0)"
  proof (cases "running t")
    case False
    then show ?thesis by (simp add: gameLoop_not_running)
  next
    case True
    have "filter (\<lambda>p'. \<not> passed p' \<and>
                   bird_x (bird t) > pipe_x p' - PIPE_SPEED + PIPE_WIDTH) (pipes t) =
          filter (\<lambda>p'. p' \<noteq> q \<and> \<not> passed p' \<and>
                   bird_x (bird t) > pipe_x p' - PIPE_SPEED + PIPE_WIDTH) (pipes t)"
      using pq by (intro filter_cong refl) auto
    then show ?thesis
      using tick_gain_from_old [OF t True, of r' now'] True by simp
  qed
qed

theorem score_fires_once_witness:
  "reachable (run before_pass_run initial) \<and> running (run before_pass_run initial) \<and>
   map pipe_x (pipes (run before_pass_run initial)) = [40, 342, 644] \<and>
   map passed (pipes (run before_pass_run initial)) = [False, False, False] \<and>
   score (run before_pass_run initial) = 0 \<and>
   map pipe_x (pipes (gameLoop (1 / 2) 0 (run before_pass_run initial))) = [38, 340, 642] \<and>
   map passed (pipes (gameLoop (1 / 2) 0 (run before_pass_run initial))) = [True, False, False] \<and>
   score (gameLoop (1 / 2) 0 (run before_pass_run initial)) = 1 \<and>
   same_obstacle (gameLoop (1 / 2) 0 (run before_pass_run initial))
     (hd (pipes (gameLoop (1 / 2) 0 (run before_pass_run initial))))
     (gameLoop (1 / 2) 0 (gameLoop (1 / 2) 0 (run before_pass_run initial)))
     (hd (pipes (gameLoop (1 / 2) 0 (gameLoop (1 / 2) 0 (run before_pass_run initial))))) \<and>
   passed (hd (pipes (gameLoop (1 / 2) 0 (gameLoop (1 / 2) 0 (run before_pass_run initial))))) \<and>
   running (gameLoop (1 / 2) 0 (gameLoop (1 / 2) 0 (run before_pass_run initial))) \<and>
   score (gameLoop (1 / 2) 0 (gameLoop (1 / 2) 0 (gameLoop (1 / 2) 0
     (run before_pass_run initial)))) = 1"
proof -
  let ?s0 = "run before_pass_run initial"
  let ?s1 = "gameLoop (1 / 2) 0 ?s0"
  let ?s2 = "gameLoop (1 / 2) 0 ?s1"
  have r0: "reachable ?s0"
    by (rule reachable_run [OF r_initial valid_before_pass])
  have r1: "reachable ?s1"
    by (rule r_tick [OF r0]) (simp add: random_ok_def)
  have so: "same_obstacle ?s1 (hd (pipes ?s1)) ?s2 (hd (pipes ?s2))"
    by (rule so_tick [OF so_here])
      (simp_all add: run_before_pass tick_defs running_def random_ok_def)
  have p1: "passed (hd (pipes ?s1))"
    by (simp add: run_before_pass tick_defs)
  from score_fires_once [OF r0, of "1 / 2" 0]
  have "running ?s0 \<longrightarrow> score ?s1 =
      score ?s0 + length (filter (\<lambda>p. \<not> passed p \<and>
          bird_x (bird ?s0) > pipe_x p - PIPE_SPEED + PIPE_WIDTH) (pipes ?s0))"
    by blast
  then have g1: "score ?s1 = 1"
    by (simp add: run_before_pass running_def game_consts)
  from score_fires_once [OF r1, of "1 / 2" 0 "hd (pipes ?s1)" ?s2 "hd (pipes ?s2)" "1 / 2" 0]
    so p1
  have later: "passed (hd (pipes ?s2)) \<and>
      score (gameLoop (1 / 2) 0 ?s2) =
        score ?s2 +
        (if running ?s2
         then length (filter (\<lambda>p'. p' \<noteq> hd (pipes ?s2) \<and> \<not> passed p' \<and>
                  bird_x (bird ?s2) > pipe_x p' - PIPE_SPEED + PIPE_WIDTH) (pipes ?s2))
         else 0)"
    by blast
  have e2: "?s2 =
     \<lparr>bird = \<lparr>bird_x = 100, bird_y = 872 / 5, velocity = - (12 / 5)\<rparr>,
      pipes = [\<lparr>pipe_x = 36, topHeight = 145, bottomHeight = 145, pipe_id = 0,
                passed = True\<rparr>,
               \<lparr>pipe_x = 338, topHeight = 145, bottomHeight = 145, pipe_id = 0,
                passed = False\<rparr>,
               \<lparr>pipe_x = 640, topHeight = 145, bottomHeight = 145, pipe_id = 0,
                passed = False\<rparr>],
      gameStarted = True, gameOver = False, score = 1\<rparr>"
    by (simp add: run_before_pass tick_defs)
  from later have g3: "score (gameLoop (1 / 2) 0 ?s2) = 1"
    unfolding e2 by (simp add: running_def game_consts)
  have rest: "running ?s0 \<and> map pipe_x (pipes ?s0) = [40, 342, 644] \<and>
      map passed (pipes ?s0) = [False, False, False] \<and> score ?s0 = 0 \<and>
      map pipe_x (pipes ?s1) = [38, 340, 642] \<and> map passed (pipes ?s1) = [True, False, False] \<and>
      running ?s2"
    by (simp add: run_before_pass tick_defs running_def)
  show ?thesis
    using r0 so later g1 g3 rest by simp
qed

text \<open>
  C5, as the code has it. On the tick of a running game that ends it by a ground
  collision, the bird is left as it was, and the pipes and the score are what the pipe
  updater makes of them, as on any other tick: the pipes move by \<^verbatim>\<open>PIPE_SPEED\<close>, those off
  the screen are removed and a new one is appended when due. The ticks after it change
  nothing.
\<close>

theorem ground_collision_still_advances_pipes:
  assumes "running s"
    and "bird_y (bird s) + velocity (bird s) > gameHeight - GROUND_HEIGHT - BIRD_SIZE"
  shows "gameOver (gameLoop r now s) \<and> bird (gameLoop r now s) = bird s \<and>
         pipes (gameLoop r now s) = fst (pipesUpdate (bird s) r now (pipes s)) \<and>
         score (gameLoop r now s) = score s + fst (snd (pipesUpdate (bird s) r now (pipes s))) \<and>
         map pipe_x (pipes (gameLoop r now s)) =
           (let kept = filter (\<lambda>v. v > - PIPE_WIDTH) (map (\<lambda>p. pipe_x p - PIPE_SPEED) (pipes s))
            in if kept = [] \<or> last kept < gameWidth - 300 then kept @ [gameWidth] else kept) \<and>
         gameLoop r' now' (gameLoop r now s) = gameLoop r now s"
proof -
  have x: "map pipe_x (pipes (gameLoop r now s)) = map pipe_x (advancePipes r now (pipes s))"
    using assms(1) by (simp add: gameLoop_running checkPipe_pipe_x comp_def)
  have over: "gameOver (gameLoop r now s)"
    using assms by (simp add: gameLoop_running birdUpdate_cases)
  then have "\<not> running (gameLoop r now s)"
    by (simp add: running_def)
  then have "gameLoop r' now' (gameLoop r now s) = gameLoop r now s"
    by (rule gameLoop_not_running)
  then show ?thesis
    using assms x over
    by (simp add: gameLoop_running birdUpdate_cases pipesUpdate_def forEachPipe_pipes
        forEachPipe_gained pipe_x_advance)
qed

theorem ground_collision_still_advances_pipes_witness:
  "running (run fall_run initial) \<and>
   bird_y (bird (run fall_run initial)) + velocity (bird (run fall_run initial)) = 424 \<and>
   gameOver (gameLoop (1 / 2) 0 (run fall_run initial)) \<and>
   map pipe_x (pipes (run fall_run initial)) = [744] \<and>
   map pipe_x (pipes (gameLoop (1 / 2) 0 (run fall_run initial))) = [742]"
  using ground_collision_still_advances_pipes [of "run fall_run initial" "1 / 2" 0 "1 / 2" 0]
  by (simp add: run_fall running_def tick_defs)

text \<open>
  C5 as the spec states it fails: after 29 ticks of falling the state is reachable and
  running, the next tick ends the game by a ground collision, and the pipes after that
  tick are not the pipes before it (the pipe moved from 744 to 742).
\<close>

theorem ground_collision_freezes_pipes_counterexample:
  "reachable (run fall_run initial) \<and> running (run fall_run initial) \<and>
   gameHeight - GROUND_HEIGHT - BIRD_SIZE <
     bird_y (bird (run fall_run initial)) + velocity (bird (run fall_run initial)) \<and>
   gameOver (gameLoop (1 / 2) 0 (run fall_run initial)) \<and>
   pipes (gameLoop (1 / 2) 0 (run fall_run initial)) \<noteq> pipes (run fall_run initial)"
  using reachable_run [OF r_initial valid_fall]
  by (simp add: run_fall running_def tick_defs)

text \<open>
  C10. On a tick of a running game the flags of the pipes, the score and the game-over
  test for the pipes are computed from the bird of the state before the tick, and they do
  not depend on its velocity, hence not on the height the tick gives the bird.
\<close>

theorem checks_use_bird_before_tick:
  assumes "running s"
  shows "pipes (gameLoop r now s) =
           map (\<lambda>p. fst (checkPipe (bird s) p)) (advancePipes r now (pipes s)) \<and>
         score (gameLoop r now s) =
           score s + length (filter (scores (bird s)) (advancePipes r now (pipes s))) \<and>
         (gameOver (gameLoop r now s) \<longleftrightarrow>
            snd (birdUpdate (bird s)) \<or>
            (\<exists>p \<in> set (advancePipes r now (pipes s)). collides (bird s) p)) \<and>
         pipes (gameLoop r now (s\<lparr>bird := (bird s)\<lparr>velocity := v\<rparr>\<rparr>)) = pipes (gameLoop r now s) \<and>
         score (gameLoop r now (s\<lparr>bird := (bird s)\<lparr>velocity := v\<rparr>\<rparr>)) = score (gameLoop r now s)"
proof -
  have r: "running (s\<lparr>bird := (bird s)\<lparr>velocity := v\<rparr>\<rparr>)"
    using assms by (simp add: running_def)
  have c: "checkPipe ((bird s)\<lparr>velocity := v\<rparr>) = checkPipe (bird s)"
    by (rule ext) (simp add: checkPipe_def scores_def collides_def)
  have sc: "scores ((bird s)\<lparr>velocity := v\<rparr>) = scores (bird s)"
    by (rule ext) (simp add: scores_def)
  show ?thesis
    using assms by (simp add: gameLoop_running [OF r] gameLoop_running [OF assms] c sc)
qed

theorem checks_use_bird_before_tick_witness:
  "running near_pipe \<and>
   bird_y (bird near_pipe) = 150 \<and> bird_y (bird (gameLoop (1 / 2) 0 near_pipe)) = 142 \<and>
   \<not> collides (bird near_pipe) (hd (pipes (gameLoop (1 / 2) 0 near_pipe))) \<and>
   collides (bird (gameLoop (1 / 2) 0 near_pipe)) (hd (pipes (gameLoop (1 / 2) 0 near_pipe))) \<and>
   \<not> gameOver (gameLoop (1 / 2) 0 near_pipe)"
  using checks_use_bird_before_tick [of near_pipe "1 / 2" 0 0]
  by (simp add: near_pipe_def initial_def running_def tick_defs)

end
